theory Spec2Isabelle
  imports Main "HOL-Library.Word"
begin

unbundle bit_operations_syntax

section \<open>Data model\<close>

text \<open>
  The program is written in Go. A Go \<open>byte\<close> is an unsigned 8-bit integer, a \<open>rune\<close> is a
  32-bit integer holding a code point (the conversion \<open>uint32(vs)\<close> keeps the bits), and a
  Go \<open>string\<close> is a sequence of bytes: \<open>len\<close> counts bytes, \<open>s[i]\<close> is a byte and
  \<open>s[1:]\<close> drops one byte.
\<close>

type_synonym byte = "8 word"
type_synonym rune = "32 word"
type_synonym gostring = "byte list"

text \<open>The three \<open>errors.New\<close> values of the codec, one constructor per message.\<close>

datatype error =
  TargetEmpty       \<comment> \<open>"target cannot be empty"\<close>
| ClearTextEmpty    \<comment> \<open>"clear text cannot be empty"\<close>
| CouldntDecode     \<comment> \<open>"couldn't decode"\<close>

section \<open>The byte/code point map\<close>

text \<open>\<open>byteToVariationSelector\<close>, lines 226 to 235 of \<open>encoji.go\<close>.\<close>

definition byteToVariationSelector :: "byte \<Rightarrow> rune" where
  "byteToVariationSelector b =
     (if b < 16 then 0xFE00 + ucast b else 0xE0100 + ucast (b - 16))"

text \<open>
  \<open>variationSelectorToByte\<close>, lines 247 to 262, runs two counting loops over
  \<open>uint32\<close> values. Each loop is a recursive function of the loop variable \<open>i\<close>, with the
  bounds of the source written in; \<open>None\<close> means that the loop ended without returning.
\<close>

function range1_loop :: "rune \<Rightarrow> rune \<Rightarrow> byte option" where
  "range1_loop varSel i =
     (if i \<le> 0xFE0F
      then (if varSel = i then Some (ucast (varSel - 0xFE00))
            else range1_loop varSel (i + 1))
      else None)"
  by pat_completeness auto
termination
  by (relation "measure (\<lambda>(varSel, i). 0xFE10 - unat i)")
    (simp_all add: word_le_nat_alt unat_word_ariths)

declare range1_loop.simps [simp del]

function range2_loop :: "rune \<Rightarrow> rune \<Rightarrow> byte option" where
  "range2_loop varSel i =
     (if i \<le> 0xE01EF
      then (if varSel = i then Some (ucast (varSel - 0xE0100 + 16))
            else range2_loop varSel (i + 1))
      else None)"
  by pat_completeness auto
termination
  by (relation "measure (\<lambda>(varSel, i). 0xE01F0 - unat i)")
    (simp_all add: word_le_nat_alt unat_word_ariths)

declare range2_loop.simps [simp del]

definition variationSelectorToByte :: "rune \<Rightarrow> error + byte" where
  "variationSelectorToByte vs =
     (case range1_loop vs 0xFE00 of
        Some b \<Rightarrow> Inr b
      | None \<Rightarrow>
          (case range2_loop vs 0xE0100 of
             Some b \<Rightarrow> Inr b
           | None \<Rightarrow> Inl CouldntDecode))"

text \<open>
  The reverse map as section 4.1 of the specification words it, by interval comparison
  and arithmetic, for comparison with the loops of the source. The specification's
  \<open>NotAVariationSelector\<close> is the source's \<open>couldn't decode\<close> error.
\<close>

definition FromCodepoint_spec :: "rune \<Rightarrow> error + byte" where
  "FromCodepoint_spec cp =
     (if 0xFE00 \<le> cp \<and> cp \<le> 0xFE0F then Inr (ucast (cp - 0xFE00))
      else if 0xE0100 \<le> cp \<and> cp \<le> 0xE01EF then Inr (ucast (cp - 0xE0100 + 16))
      else Inl CouldntDecode)"

section \<open>UTF-8 as the Go runtime and library implement it\<close>

text \<open>
  The codec writes runes with \<open>strings.Builder.WriteRune\<close> and reads them back with
  \<open>for _, vs := range varSels\<close>. Both are Go's own UTF-8 coder, transcribed here from
  \<open>unicode/utf8\<close> and \<open>runtime/utf8.go\<close>. The named constants are
  \<open>RuneError = 0xFFFD\<close>, \<open>RuneSelf = 0x80\<close>, \<open>MaxRune = 0x10FFFF\<close>, the surrogate
  interval \<open>0xD800\<close> to \<open>0xDFFF\<close>, the lead-byte tags \<open>t2 = 0xC0\<close>, \<open>t3 = 0xE0\<close>,
  \<open>t4 = 0xF0\<close>, \<open>t5 = 0xF8\<close>, the continuation tag \<open>tx = 0x80\<close> with mask
  \<open>maskx = 0x3F\<close>, the payload masks \<open>mask2 = 0x1F\<close>, \<open>mask3 = 0x0F\<close>,
  \<open>mask4 = 0x07\<close>, and the continuation interval \<open>locb = 0x80\<close> to \<open>hicb = 0xBF\<close>.
\<close>

abbreviation RuneError :: rune where "RuneError \<equiv> 0xFFFD"

text \<open>
  \<open>utf8.AppendRune\<close>, which \<open>WriteRune\<close> applies to the builder's buffer. The cases are in
  the order of the library's \<open>switch\<close>: one byte, two bytes, the invalid runes (beyond
  \<open>MaxRune\<close> or a surrogate) replaced by \<open>RuneError\<close> and falling through to three bytes,
  three bytes, four bytes. Every branch that shifts holds a non-negative rune, so the
  shift of the signed \<open>rune\<close> is the logical one.
\<close>

definition encode3 :: "rune \<Rightarrow> gostring" where
  "encode3 r =
     [0xE0 OR ucast (drop_bit 12 r),
      0x80 OR (ucast (drop_bit 6 r) AND 0x3F),
      0x80 OR (ucast r AND 0x3F)]"

definition AppendRune :: "gostring \<Rightarrow> rune \<Rightarrow> gostring" where
  "AppendRune p r =
     (if r \<le> 0x7F then p @ [ucast r]
      else if r \<le> 0x7FF then
        p @ [0xC0 OR ucast (drop_bit 6 r), 0x80 OR (ucast r AND 0x3F)]
      else if 0x10FFFF < r \<or> (0xD800 \<le> r \<and> r \<le> 0xDFFF) then p @ encode3 RuneError
      else if r \<le> 0xFFFF then p @ encode3 r
      else
        p @ [0xF0 OR ucast (drop_bit 18 r),
             0x80 OR (ucast (drop_bit 12 r) AND 0x3F),
             0x80 OR (ucast (drop_bit 6 r) AND 0x3F),
             0x80 OR (ucast r AND 0x3F)])"

text \<open>
  \<open>decoderune\<close> of the runtime, on the rest \<open>s[k:]\<close> of the string: the rune and the number
  of bytes it takes. An invalid or truncated sequence is \<open>RuneError\<close> of width one.
\<close>

definition continuation :: "byte \<Rightarrow> bool" where
  "continuation c \<longleftrightarrow> 0x80 \<le> c \<and> c \<le> 0xBF"

definition decoderune :: "gostring \<Rightarrow> rune \<times> nat" where
  "decoderune s =
     (case s of
        [] \<Rightarrow> (RuneError, 1)
      | s0 # _ \<Rightarrow>
          if 0xC0 \<le> s0 \<and> s0 < 0xE0 then
            (if 1 < length s \<and> continuation (s ! 1) then
               (let r = push_bit 6 (ucast (s0 AND 0x1F)) OR ucast (s ! 1 AND 0x3F)
                in if 0x7F < r then (r, 2) else (RuneError, 1))
             else (RuneError, 1))
          else if 0xE0 \<le> s0 \<and> s0 < 0xF0 then
            (if 2 < length s \<and> continuation (s ! 1) \<and> continuation (s ! 2) then
               (let r = push_bit 12 (ucast (s0 AND 0x0F))
                          OR push_bit 6 (ucast (s ! 1 AND 0x3F))
                          OR ucast (s ! 2 AND 0x3F)
                in if 0x7FF < r \<and> \<not> (0xD800 \<le> r \<and> r \<le> 0xDFFF) then (r, 3)
                   else (RuneError, 1))
             else (RuneError, 1))
          else if 0xF0 \<le> s0 \<and> s0 < 0xF8 then
            (if 3 < length s \<and> continuation (s ! 1) \<and> continuation (s ! 2)
                  \<and> continuation (s ! 3) then
               (let r = push_bit 18 (ucast (s0 AND 0x07))
                          OR push_bit 12 (ucast (s ! 1 AND 0x3F))
                          OR push_bit 6 (ucast (s ! 2 AND 0x3F))
                          OR ucast (s ! 3 AND 0x3F)
                in if 0xFFFF < r \<and> r \<le> 0x10FFFF then (r, 4) else (RuneError, 1))
             else (RuneError, 1))
          else (RuneError, 1))"

text \<open>
  One step of \<open>for i, r := range s\<close> at a position inside the string, on the rest of the
  string from there: a byte below \<open>RuneSelf\<close> is its own rune, anything else goes through
  \<open>decoderune\<close>.
\<close>

definition range_next :: "gostring \<Rightarrow> rune \<times> nat" where
  "range_next s =
     (case s of
        [] \<Rightarrow> (RuneError, 1)
      | s0 # _ \<Rightarrow> if s0 < 0x80 then (ucast s0, 1) else decoderune s)"

text \<open>The runes that \<open>range\<close> yields over a string, in order, from byte index \<open>i\<close> on.\<close>

function runes_from :: "gostring \<Rightarrow> nat \<Rightarrow> rune list" where
  "runes_from s i =
     (if i < length s
      then (let (r, w) = range_next (drop i s) in r # runes_from s (i + w))
      else [])"
  by pat_completeness auto
termination
  by (relation "measure (\<lambda>(s, i). length s - i)")
    (auto simp add: range_next_def decoderune_def Let_def split: list.splits if_splits)

declare runes_from.simps [simp del]

definition runes :: "gostring \<Rightarrow> rune list" where
  "runes s = runes_from s 0"

section \<open>The transforms\<close>

text \<open>
  \<open>encode\<close>, lines 237 to 245: the builder starts empty, receives the base rune and then
  one variation selector per byte of the sentence.
\<close>

primrec encode_loop :: "gostring \<Rightarrow> byte list \<Rightarrow> gostring" where
  "encode_loop s [] = s"
| "encode_loop s (b # sentence) =
     encode_loop (AppendRune s (byteToVariationSelector b)) sentence"

definition encode :: "rune \<Rightarrow> byte list \<Rightarrow> gostring" where
  "encode base sentence = encode_loop (AppendRune [] base) sentence"

text \<open>
  \<open>decode\<close>, lines 264 to 275: the loop over the runes of the string, with the byte index
  \<open>i\<close> and the builder \<open>message\<close> as its state. \<open>WriteByte\<close> appends one byte.
\<close>

function decode_loop :: "gostring \<Rightarrow> nat \<Rightarrow> gostring \<Rightarrow> gostring" where
  "decode_loop varSels i message =
     (if i < length varSels
      then (let (vs, w) = range_next (drop i varSels)
            in case variationSelectorToByte vs of
                 Inr b \<Rightarrow> decode_loop varSels (i + w) (message @ [b])
               | Inl err \<Rightarrow> decode_loop varSels (i + w) (message @ [0x0A]))
      else message)"
  by pat_completeness auto
termination
  by (relation "measure (\<lambda>(s, i, m). length s - i)")
    (auto simp add: range_next_def decoderune_def Let_def split: list.splits if_splits)

declare decode_loop.simps [simp del]

definition decode :: "gostring \<Rightarrow> gostring" where
  "decode varSels = decode_loop varSels 0 []"

section \<open>Trimming: \<open>strings.TrimSpace\<close>\<close>

text \<open>
  \<open>DecodeText\<close> passes the decoded bytes through \<open>strings.TrimSpace\<close>. The library scans
  ASCII space bytes from both ends itself and hands the string over to
  \<open>TrimFunc(s, unicode.IsSpace)\<close> as soon as it meets a byte at or above \<open>RuneSelf\<close>. The
  functions below follow \<open>strings\<close>, \<open>unicode\<close> and \<open>unicode/utf8\<close>.
\<close>

text \<open>The table \<open>asciiSpace\<close>: tab, newline, vertical tab, form feed, return, space.\<close>

definition asciiSpace :: "byte \<Rightarrow> byte" where
  "asciiSpace c = (if c \<in> {0x09, 0x0A, 0x0B, 0x0C, 0x0D, 0x20} then 1 else 0)"

text \<open>
  \<open>unicode.IsSpace\<close>: in Latin-1 the six ASCII spaces, U+0085 and U+00A0; beyond Latin-1
  the code points of the \<open>White_Space\<close> table.
\<close>

definition IsSpace :: "rune \<Rightarrow> bool" where
  "IsSpace r =
     (if r \<le> 0xFF then r \<in> {0x09, 0x0A, 0x0B, 0x0C, 0x0D, 0x20, 0x85, 0xA0}
      else r = 0x1680 \<or> (0x2000 \<le> r \<and> r \<le> 0x200A) \<or> r = 0x2028 \<or> r = 0x2029
           \<or> r = 0x202F \<or> r = 0x205F \<or> r = 0x3000)"

text \<open>
  \<open>utf8.DecodeRuneInString\<close>, driven by the table \<open>first\<close> (information about the lead
  byte: \<open>as = 0xF0\<close> for ASCII, \<open>xx = 0xF1\<close> for an invalid lead byte, otherwise the
  size in the low bits and the index of the accepted interval of the second byte in the
  high bits) and the table \<open>acceptRanges\<close>.
\<close>

definition first :: "byte \<Rightarrow> byte" where
  "first b =
     (if b \<le> 0x7F then 0xF0
      else if b \<le> 0xC1 then 0xF1
      else if b \<le> 0xDF then 0x02
      else if b = 0xE0 then 0x13
      else if b \<le> 0xEC then 0x03
      else if b = 0xED then 0x23
      else if b \<le> 0xEF then 0x03
      else if b = 0xF0 then 0x34
      else if b \<le> 0xF3 then 0x04
      else if b = 0xF4 then 0x44
      else 0xF1)"

definition acceptRanges :: "nat \<Rightarrow> byte \<times> byte" where
  "acceptRanges k =
     (if k = 0 then (0x80, 0xBF)
      else if k = 1 then (0xA0, 0xBF)
      else if k = 2 then (0x80, 0x9F)
      else if k = 3 then (0x90, 0xBF)
      else if k = 4 then (0x80, 0x8F)
      else (0, 0))"

definition DecodeRuneInString :: "gostring \<Rightarrow> rune \<times> nat" where
  "DecodeRuneInString s =
     (case s of
        [] \<Rightarrow> (RuneError, 0)
      | s0 # _ \<Rightarrow>
          (let x = first s0 in
           if 0xF0 \<le> x then ((if bit x 0 then RuneError else ucast s0), 1)
           else
             (let sz = unat (x AND 7);
                  (lo, hi) = acceptRanges (unat (drop_bit 4 x))
              in if length s < sz then (RuneError, 1)
                 else if s ! 1 < lo \<or> hi < s ! 1 then (RuneError, 1)
                 else if sz \<le> 2 then
                   (push_bit 6 (ucast (s0 AND 0x1F)) OR ucast (s ! 1 AND 0x3F), 2)
                 else if s ! 2 < 0x80 \<or> 0xBF < s ! 2 then (RuneError, 1)
                 else if sz \<le> 3 then
                   (push_bit 12 (ucast (s0 AND 0x0F))
                      OR push_bit 6 (ucast (s ! 1 AND 0x3F))
                      OR ucast (s ! 2 AND 0x3F), 3)
                 else if s ! 3 < 0x80 \<or> 0xBF < s ! 3 then (RuneError, 1)
                 else
                   (push_bit 18 (ucast (s0 AND 0x07))
                      OR push_bit 12 (ucast (s ! 1 AND 0x3F))
                      OR push_bit 6 (ucast (s ! 2 AND 0x3F))
                      OR ucast (s ! 3 AND 0x3F), 4))))"

text \<open>
  \<open>utf8.DecodeLastRuneInString\<close>. \<open>RuneStart\<close> tells whether a byte can begin a rune. The
  backwards search for the start of the last rune is the loop
  \<open>for start--; start >= lim; start-- { if RuneStart(s[start]) { break } }\<close> over signed
  indices.
\<close>

definition RuneStart :: "byte \<Rightarrow> bool" where
  "RuneStart b \<longleftrightarrow> b AND 0xC0 \<noteq> 0x80"

function back_scan :: "gostring \<Rightarrow> int \<Rightarrow> int \<Rightarrow> int" where
  "back_scan s lim start =
     (if lim \<le> start
      then (if RuneStart (s ! nat start) then start else back_scan s lim (start - 1))
      else start)"
  by pat_completeness auto
termination
  by (relation "measure (\<lambda>(s, lim, start). nat (start - lim + 1))") auto

declare back_scan.simps [simp del]

definition DecodeLastRuneInString :: "gostring \<Rightarrow> rune \<times> nat" where
  "DecodeLastRuneInString s =
     (let en = int (length s) in
      if en = 0 then (RuneError, 0)
      else if s ! nat (en - 1) < 0x80 then (ucast (s ! nat (en - 1)), 1)
      else
        (let lim = (if en - 4 < 0 then 0 else en - 4);
             start = back_scan s lim (en - 1 - 1);
             start = (if start < 0 then 0 else start);
             (r, size) = DecodeRuneInString (take (nat (en - start)) (drop (nat start) s))
         in if start + int size \<noteq> en then (RuneError, 1) else (r, size)))"

text \<open>
  \<open>indexFunc\<close> is a \<open>range\<close> loop returning the byte index of the first rune with
  \<open>f(r) == truth\<close>, or \<open>-1\<close>.
\<close>

function indexFunc_loop :: "gostring \<Rightarrow> (rune \<Rightarrow> bool) \<Rightarrow> bool \<Rightarrow> nat \<Rightarrow> int" where
  "indexFunc_loop s f truth i =
     (if i < length s
      then (let (r, w) = range_next (drop i s)
            in if f r = truth then int i else indexFunc_loop s f truth (i + w))
      else - 1)"
  by pat_completeness auto
termination
  by (relation "measure (\<lambda>(s, f, truth, i). length s - i)")
    (auto simp add: range_next_def decoderune_def Let_def split: list.splits if_splits)

declare indexFunc_loop.simps [simp del]

definition indexFunc :: "gostring \<Rightarrow> (rune \<Rightarrow> bool) \<Rightarrow> bool \<Rightarrow> int" where
  "indexFunc s f truth = indexFunc_loop s f truth 0"

text \<open>
  \<open>lastIndexFunc\<close> walks backwards: \<open>for i := len(s); i > 0; \<close> decodes the last rune of
  \<open>s[0:i]\<close> and steps \<open>i\<close> back by its size. The string is read only through the prefix
  \<open>s[0:i]\<close>, so the prefix is the loop state and \<open>i\<close> its length.
\<close>

function lastIndexFunc :: "gostring \<Rightarrow> (rune \<Rightarrow> bool) \<Rightarrow> bool \<Rightarrow> int" where
  "lastIndexFunc s f truth =
     (if 0 < length s
      then (let (r, size) = DecodeLastRuneInString s;
                i = length s - size
            in if f r = truth then int i else lastIndexFunc (take i s) f truth)
      else - 1)"
  by pat_completeness auto
termination
proof (relation "measure (\<lambda>(s, f, truth). length s)")
  show "wf (measure (\<lambda>(s :: gostring, f :: rune \<Rightarrow> bool, truth :: bool). length s))"
    by simp
next
  fix s :: gostring and f :: "rune \<Rightarrow> bool" and truth :: bool
    and x :: "rune \<times> nat" and r :: rune and size' :: nat and i :: nat
  assume pos: "0 < length s" and x: "x = DecodeLastRuneInString s"
    and rs: "(r, size') = x" and i: "i = length s - size'"
  have scan_le: "back_scan t lim start \<le> start" for t lim start
  proof (induction t lim start rule: back_scan.induct)
    case (1 t lim start)
    then show ?case by (subst back_scan.simps) auto
  qed
  have "0 < size'"
  proof (rule ccontr)
    assume "\<not> 0 < size'"
    then have z: "size' = 0" by simp
    from scan_le [of s "if int (length s) - 4 < 0 then 0 else int (length s) - 4"
        "int (length s) - 1 - 1"] pos
    have "(if back_scan s (if int (length s) - 4 < 0 then 0 else int (length s) - 4)
              (int (length s) - 1 - 1) < 0 then 0
           else back_scan s (if int (length s) - 4 < 0 then 0 else int (length s) - 4)
              (int (length s) - 1 - 1)) < int (length s)"
      by auto
    with x rs z pos show False
      by (auto simp add: DecodeLastRuneInString_def Let_def split: if_splits prod.splits)
  qed
  with pos i show "((take i s, f, truth), (s, f, truth))
      \<in> measure (\<lambda>(s, f, truth). length s)"
    by simp
qed

declare lastIndexFunc.simps [simp del]

definition TrimLeftFunc :: "gostring \<Rightarrow> (rune \<Rightarrow> bool) \<Rightarrow> gostring" where
  "TrimLeftFunc s f =
     (let i = indexFunc s f False in if i = - 1 then [] else drop (nat i) s)"

definition TrimRightFunc :: "gostring \<Rightarrow> (rune \<Rightarrow> bool) \<Rightarrow> gostring" where
  "TrimRightFunc s f =
     (let i = lastIndexFunc s f False;
          i = (if 0 \<le> i \<and> 0x80 \<le> s ! nat i
               then i + int (snd (DecodeRuneInString (drop (nat i) s)))
               else i + 1)
      in take (nat i) s)"

definition TrimFunc :: "gostring \<Rightarrow> (rune \<Rightarrow> bool) \<Rightarrow> gostring" where
  "TrimFunc s f = TrimRightFunc (TrimLeftFunc s f) f"

text \<open>
  The two loops of \<open>TrimSpace\<close>. Each either returns from the function (\<open>Return\<close>) or
  leaves the loop with the index it reached (\<open>Index\<close>).
\<close>

datatype trim_scan = Return gostring | Index nat

function TrimSpace_start :: "gostring \<Rightarrow> nat \<Rightarrow> trim_scan" where
  "TrimSpace_start s start =
     (if start < length s
      then (let c = s ! start
            in if 0x80 \<le> c then Return (TrimFunc (drop start s) IsSpace)
               else if asciiSpace c = 0 then Index start
               else TrimSpace_start s (start + 1))
      else Index start)"
  by pat_completeness auto
termination
  by (relation "measure (\<lambda>(s, start). length s - start)") auto

declare TrimSpace_start.simps [simp del]

function TrimSpace_stop :: "gostring \<Rightarrow> nat \<Rightarrow> nat \<Rightarrow> trim_scan" where
  "TrimSpace_stop s start stop =
     (if start < stop
      then (let c = s ! (stop - 1)
            in if 0x80 \<le> c
               then Return (TrimRightFunc (take (stop - start) (drop start s)) IsSpace)
               else if asciiSpace c = 0 then Index stop
               else TrimSpace_stop s start (stop - 1))
      else Index stop)"
  by pat_completeness auto
termination
  by (relation "measure (\<lambda>(s, start, stop). stop)") auto

declare TrimSpace_stop.simps [simp del]

definition TrimSpace :: "gostring \<Rightarrow> gostring" where
  "TrimSpace s =
     (case TrimSpace_start s 0 of
        Return t \<Rightarrow> t
      | Index start \<Rightarrow>
          (case TrimSpace_stop s start (length s) of
             Return t \<Rightarrow> t
           | Index stop \<Rightarrow> take (stop - start) (drop start s)))"

section \<open>The smuggler and its two operations\<close>

text \<open>
  The struct \<open>smuggler\<close>, without its three stream handles. The field \<open>encode\<close> of the
  source is \<open>encode_flag\<close> here, since the function \<open>encode\<close> has the name.
\<close>

record smuggler =
  clearText :: gostring
  encode_flag :: bool

text \<open>
  \<open>EncodeText\<close>, lines 34 to 47. \<open>target[0]\<close> is the first byte of the string and
  \<open>rune(target[0])\<close> the rune with that byte's value; \<open>target[1:]\<close> is the string without
  its first byte.
\<close>

definition EncodeText :: "smuggler \<Rightarrow> gostring \<Rightarrow> error + gostring" where
  "EncodeText s target =
     (if length target = 0 then Inl TargetEmpty
      else if length (clearText s) = 0 then Inl ClearTextEmpty
      else
        (let encodedText = encode (ucast (target ! 0)) (clearText s)
         in if 1 < length target then Inr (encodedText @ drop 1 target)
            else Inr encodedText))"

text \<open>\<open>DecodeText\<close>, lines 49 to 54.\<close>

definition DecodeText :: "smuggler \<Rightarrow> gostring \<Rightarrow> error + gostring" where
  "DecodeText s target =
     (if length target = 0 then Inl TargetEmpty
      else Inr (TrimSpace (decode target)))"

section \<open>Notions of the specification\<close>

text \<open>
  A rune is a Unicode scalar value when it is at most \<open>MaxRune\<close> and no surrogate.
\<close>

definition valid_rune :: "rune \<Rightarrow> bool" where
  "valid_rune r \<longleftrightarrow> r \<le> 0x10FFFF \<and> \<not> (0xD800 \<le> r \<and> r \<le> 0xDFFF)"

text \<open>The two variation-selector ranges of section 3 of the specification.\<close>

definition RangeA :: "rune set" where
  "RangeA = {0xFE00 .. 0xFE0F}"

definition RangeB :: "rune set" where
  "RangeB = {0xE0100 .. 0xE01EF}"

text \<open>
  The byte that \<open>decode\<close> writes for one rune: the recovered byte, or the newline
  \<open>0x0A\<close> when the rune is no variation selector.
\<close>

definition byte_or_newline :: "rune \<Rightarrow> byte" where
  "byte_or_newline vs =
     (case variationSelectorToByte vs of Inr b \<Rightarrow> b | Inl err \<Rightarrow> 0x0A)"

text \<open>
  The output of \<open>Embed\<close> as section 4.2 of the specification words it: the first scalar
  character of the carrier (the bytes of its first rune), one variation selector per
  payload byte, then the rest of the carrier.
\<close>

definition Embed_spec :: "gostring \<Rightarrow> byte list \<Rightarrow> gostring" where
  "Embed_spec carrier payload =
     (let w = snd (range_next carrier)
      in take w carrier
         @ concat (map (\<lambda>b. AppendRune [] (byteToVariationSelector b)) payload)
         @ drop w carrier)"

text \<open>A printable byte that is no white space: the visible ASCII characters.\<close>

definition printable :: "byte \<Rightarrow> bool" where
  "printable b \<longleftrightarrow> 0x21 \<le> b \<and> b \<le> 0x7E"

text \<open>
  The specification's \<open>EmptyInputError\<close>: either of the two "cannot be empty" errors of
  the source.
\<close>

definition EmptyInputError :: "error \<Rightarrow> bool" where
  "EmptyInputError e \<longleftrightarrow> e = TargetEmpty \<or> e = ClearTextEmpty"

text \<open>
  The two kinds of byte that the ASCII scan of \<open>TrimSpace\<close> tells apart: a space that it
  skips and a visible byte at which it stops.
\<close>

definition ascii_space :: "byte \<Rightarrow> bool" where
  "ascii_space c \<longleftrightarrow> c < 0x80 \<and> asciiSpace c \<noteq> 0"

definition ascii_visible :: "byte \<Rightarrow> bool" where
  "ascii_visible c \<longleftrightarrow> c < 0x80 \<and> asciiSpace c = 0"

section \<open>Facts about bytes and runes\<close>

lemma unat_byte_lt: "unat (b :: byte) < 256"
  using unsigned_less [of b, where 'a = nat] by simp

lemma unat_rune_lt: "unat (r :: rune) < 4294967296"
  using unsigned_less [of r, where 'a = nat] by simp

lemma unat_ucast_byte: "unat (ucast (b :: byte) :: rune) = unat b"
proof -
  have "unat b < 2 ^ 32" using unat_byte_lt [of b] by simp
  then show ?thesis by (simp add: unsigned_ucast_eq take_bit_nat_eq_self)
qed

lemma unat_ucast_rune_small:
  "unat (r :: rune) < 256 \<Longrightarrow> unat (ucast r :: byte) = unat r"
  by (simp add: unsigned_ucast_eq take_bit_nat_eq_self)

lemma unat_rune_succ: "unat (i :: rune) < 4294967295 \<Longrightarrow> unat (i + 1) = Suc (unat i)"
  by (simp add: unat_word_ariths)

section \<open>The loops return exactly on their interval\<close>

lemma range1_loop_eq:
  "i \<le> 0xFE10 \<Longrightarrow>
   range1_loop v i = (if i \<le> v \<and> v \<le> 0xFE0F then Some (ucast (v - 0xFE00)) else None)"
proof (induction v i rule: range1_loop.induct)
  case (1 v i)
  show ?case
  proof (cases "i \<le> 0xFE0F")
    case True
    note le = this
    then have ui: "unat i \<le> 65039" by (simp add: word_le_nat_alt)
    show ?thesis
    proof (cases "v = i")
      case True
      with le show ?thesis by (subst range1_loop.simps) simp
    next
      case False
      then have ne: "unat v \<noteq> unat i" by (simp add: word_unat_eq_iff)
      from ui have su: "unat (i + 1) = Suc (unat i)" by (simp add: unat_rune_succ)
      with ui have "i + 1 \<le> 0xFE10" by (simp add: word_le_nat_alt)
      with 1 le False have "range1_loop v (i + 1) =
          (if i + 1 \<le> v \<and> v \<le> 0xFE0F then Some (ucast (v - 0xFE00)) else None)"
        by simp
      moreover from ne su have "(i + 1 \<le> v) = (i \<le> v)"
        by (auto simp add: word_le_nat_alt)
      ultimately show ?thesis using le False by (subst range1_loop.simps) simp
    qed
  next
    case False
    with 1(2) have "unat i = 65040" by (simp add: word_le_nat_alt)
    then have "\<not> (i \<le> v \<and> v \<le> 0xFE0F)" by (auto simp add: word_le_nat_alt)
    with False show ?thesis by (subst range1_loop.simps) simp
  qed
qed

lemma range2_loop_eq:
  "i \<le> 0xE01F0 \<Longrightarrow>
   range2_loop v i =
     (if i \<le> v \<and> v \<le> 0xE01EF then Some (ucast (v - 0xE0100 + 16)) else None)"
proof (induction v i rule: range2_loop.induct)
  case (1 v i)
  show ?case
  proof (cases "i \<le> 0xE01EF")
    case True
    note le = this
    then have ui: "unat i \<le> 917999" by (simp add: word_le_nat_alt)
    show ?thesis
    proof (cases "v = i")
      case True
      with le show ?thesis by (subst range2_loop.simps) simp
    next
      case False
      then have ne: "unat v \<noteq> unat i" by (simp add: word_unat_eq_iff)
      from ui have su: "unat (i + 1) = Suc (unat i)" by (simp add: unat_rune_succ)
      with ui have "i + 1 \<le> 0xE01F0" by (simp add: word_le_nat_alt)
      with 1 le False have "range2_loop v (i + 1) =
          (if i + 1 \<le> v \<and> v \<le> 0xE01EF then Some (ucast (v - 0xE0100 + 16)) else None)"
        by simp
      moreover from ne su have "(i + 1 \<le> v) = (i \<le> v)"
        by (auto simp add: word_le_nat_alt)
      ultimately show ?thesis using le False by (subst range2_loop.simps) simp
    qed
  next
    case False
    with 1(2) have "unat i = 918000" by (simp add: word_le_nat_alt)
    then have "\<not> (i \<le> v \<and> v \<le> 0xE01EF)" by (auto simp add: word_le_nat_alt)
    with False show ?thesis by (subst range2_loop.simps) simp
  qed
qed

lemma variationSelectorToByte_cases:
  "variationSelectorToByte cp =
     (if 0xFE00 \<le> cp \<and> cp \<le> 0xFE0F then Inr (ucast (cp - 0xFE00))
      else if 0xE0100 \<le> cp \<and> cp \<le> 0xE01EF then Inr (ucast (cp - 0xE0100 + 16))
      else Inl CouldntDecode)"
  by (simp add: variationSelectorToByte_def range1_loop_eq range2_loop_eq)

section \<open>Bytes of the UTF-8 encoding\<close>

lemma bit_index_byte: "n < 8 \<Longrightarrow> n \<in> {0, 1, 2, 3, 4, 5, 6, 7 :: nat}"
  by simp presburger

lemma bit_index_rune:
  "n < 32 \<Longrightarrow> n \<in> {0, 1, 2, 3, 4, 5, 6, 7, 8, 9, 10, 11, 12, 13, 14, 15, 16, 17, 18,
      19, 20, 21, 22, 23, 24, 25, 26, 27, 28, 29, 30, 31 :: nat}"
  by simp presburger

lemma rune_upper_bits:
  assumes "unat (r :: rune) < 2 ^ k" and "k \<le> n"
  shows "\<not> bit r n"
proof -
  from assms(1) have "take_bit k (unat r) = unat r" by (simp add: take_bit_nat_eq_self)
  then have "bit (unat r) n = bit (take_bit k (unat r)) n" by simp
  with assms(2) show ?thesis
    by (simp add: bit_take_bit_iff bit_unsigned_iff del: take_bit_nat_eq_self_iff)
qed

lemma unat_byte_or:
  assumes "a AND b = (0 :: byte)"
  shows "unat (a OR b) = unat a + unat b"
proof -
  have "unat a AND unat b = unat (a AND b)" by (simp add: unsigned_and_eq)
  with assms have "unat a AND unat b = 0" by simp
  then have "unat a + unat b = unat a OR unat b" by (rule disjunctive_add_eq_or)
  then show ?thesis by (simp add: unsigned_or_eq)
qed

lemma unat_and_3F: "unat ((x :: byte) AND 0x3F) = unat x mod 64"
proof -
  have "unat x AND 63 = take_bit 6 (unat x)"
    by (simp add: take_bit_eq_mask mask_eq_exp_minus_1)
  then show ?thesis by (simp add: unsigned_and_eq take_bit_eq_mod)
qed

lemma tx_disjoint: "0x80 AND ((x :: byte) AND 0x3F) = 0"
  apply (rule bit_word_eqI)
  apply simp
  apply (drule bit_index_byte)
  apply (elim insertE emptyE)
  apply (simp_all add: bit_simps)
  done

lemma unat_tx: "unat (0x80 OR ((x :: byte) AND 0x3F)) = 128 + unat x mod 64"
  by (simp add: unat_byte_or [OF tx_disjoint] unat_and_3F)

lemma continuation_tx: "continuation (0x80 OR ((x :: byte) AND 0x3F))"
proof -
  have "unat x mod 64 < 64" by simp
  with unat_tx [of x] show ?thesis by (simp add: continuation_def word_le_nat_alt)
qed

lemma unat_ucast_drop_bit:
  "unat (ucast (drop_bit k (r :: rune)) :: byte) = (unat r div 2 ^ k) mod 256"
  by (simp only: unsigned_ucast_eq unat_drop_bit_eq)
    (simp add: drop_bit_eq_div take_bit_eq_mod)

lemma lead2_disjoint:
  assumes "unat (r :: rune) < 2 ^ 11"
  shows "0xC0 AND (ucast (drop_bit 6 r) :: byte) = 0"
  apply (rule bit_word_eqI)
  apply simp
  apply (drule bit_index_byte)
  apply (elim insertE emptyE)
  apply (simp_all add: bit_simps rune_upper_bits [OF assms])
  done

lemma lead3_disjoint:
  assumes "unat (r :: rune) < 2 ^ 16"
  shows "0xE0 AND (ucast (drop_bit 12 r) :: byte) = 0"
  apply (rule bit_word_eqI)
  apply simp
  apply (drule bit_index_byte)
  apply (elim insertE emptyE)
  apply (simp_all add: bit_simps rune_upper_bits [OF assms])
  done

lemma lead4_disjoint:
  assumes "unat (r :: rune) < 2 ^ 21"
  shows "0xF0 AND (ucast (drop_bit 18 r) :: byte) = 0"
  apply (rule bit_word_eqI)
  apply simp
  apply (drule bit_index_byte)
  apply (elim insertE emptyE)
  apply (simp_all add: bit_simps rune_upper_bits [OF assms])
  done

lemma unat_lead2:
  assumes "unat (r :: rune) < 2 ^ 11"
  shows "unat (0xC0 OR (ucast (drop_bit 6 r) :: byte)) = 192 + unat r div 64"
  using assms
  by (simp add: unat_byte_or [OF lead2_disjoint [OF assms]] unat_ucast_drop_bit)

lemma unat_lead3:
  assumes "unat (r :: rune) < 2 ^ 16"
  shows "unat (0xE0 OR (ucast (drop_bit 12 r) :: byte)) = 224 + unat r div 4096"
  using assms
  by (simp add: unat_byte_or [OF lead3_disjoint [OF assms]] unat_ucast_drop_bit)

lemma unat_lead4:
  assumes "unat (r :: rune) < 2 ^ 21"
  shows "unat (0xF0 OR (ucast (drop_bit 18 r) :: byte)) = 240 + unat r div 262144"
  using assms
  by (simp add: unat_byte_or [OF lead4_disjoint [OF assms]] unat_ucast_drop_bit)

lemma value2:
  assumes "unat (r :: rune) < 2 ^ 11"
  shows "push_bit 6 (ucast ((0xC0 OR ucast (drop_bit 6 r) :: byte) AND 0x1F))
           OR ucast ((0x80 OR (ucast r AND 0x3F) :: byte) AND 0x3F) = r"
  apply (rule bit_word_eqI)
  apply simp
  apply (drule bit_index_rune)
  apply (elim insertE emptyE)
  apply (simp_all add: bit_simps rune_upper_bits [OF assms])
  done

lemma value3:
  assumes "unat (r :: rune) < 2 ^ 16"
  shows "push_bit 12 (ucast ((0xE0 OR ucast (drop_bit 12 r) :: byte) AND 0x0F))
           OR push_bit 6 (ucast ((0x80 OR (ucast (drop_bit 6 r) AND 0x3F) :: byte) AND 0x3F))
           OR ucast ((0x80 OR (ucast r AND 0x3F) :: byte) AND 0x3F) = r"
  apply (rule bit_word_eqI)
  apply simp
  apply (drule bit_index_rune)
  apply (elim insertE emptyE)
  apply (simp_all add: bit_simps rune_upper_bits [OF assms])
  done

lemma value4:
  assumes "unat (r :: rune) < 2 ^ 21"
  shows "push_bit 18 (ucast ((0xF0 OR ucast (drop_bit 18 r) :: byte) AND 0x07))
           OR push_bit 12 (ucast ((0x80 OR (ucast (drop_bit 12 r) AND 0x3F) :: byte) AND 0x3F))
           OR push_bit 6 (ucast ((0x80 OR (ucast (drop_bit 6 r) AND 0x3F) :: byte) AND 0x3F))
           OR ucast ((0x80 OR (ucast r AND 0x3F) :: byte) AND 0x3F) = r"
  apply (rule bit_word_eqI)
  apply simp
  apply (drule bit_index_rune)
  apply (elim insertE emptyE)
  apply (simp_all add: bit_simps rune_upper_bits [OF assms])
  done

section \<open>Reading back what \<open>AppendRune\<close> wrote\<close>

lemma AppendRune_append: "AppendRune p r = p @ AppendRune [] r"
  by (simp add: AppendRune_def)

lemma encode3_RuneError: "encode3 RuneError = [0xEF, 0xBF, 0xBD]"
  by (simp add: encode3_def)

lemma range_next_RuneError: "range_next ([0xEF, 0xBF, 0xBD] @ rest) = (RuneError, 3)"
  by (simp add: range_next_def decoderune_def continuation_def)

lemma range_next_1:
  assumes "r \<le> 0x7F"
  shows "range_next (ucast r # rest) = (r, 1)"
proof -
  from assms have u: "unat r < 128" by (simp add: word_le_nat_alt)
  then have b: "unat (ucast r :: byte) = unat r" by (simp add: unat_ucast_rune_small)
  then have "unat (ucast (ucast r :: byte) :: rune) = unat r" by (simp add: unat_ucast_byte)
  then have "ucast (ucast r :: byte) = r" by (simp add: word_unat_eq_iff)
  moreover from u b have "(ucast r :: byte) < 0x80" by (simp add: word_less_nat_alt)
  ultimately show ?thesis by (simp add: range_next_def)
qed

lemma range_next_2:
  assumes "0x7F < r" and "r \<le> 0x7FF"
  shows "range_next ([0xC0 OR ucast (drop_bit 6 r), 0x80 OR (ucast r AND 0x3F)] @ rest) = (r, 2)"
proof -
  from assms have u: "unat r < 2 ^ 11" "128 \<le> unat r" "unat r \<le> 2047"
    by (simp_all add: word_le_nat_alt word_less_nat_alt)
  from u have lead: "\<not> (0xC0 OR ucast (drop_bit 6 r) :: byte) < 0x80"
    "0xC0 \<le> (0xC0 OR ucast (drop_bit 6 r) :: byte)"
    "(0xC0 OR ucast (drop_bit 6 r) :: byte) < 0xE0"
    by (simp_all add: word_le_nat_alt word_less_nat_alt unat_lead2 [OF u(1)])
  show ?thesis
    using lead assms(1)
    by (simp add: range_next_def decoderune_def continuation_tx value2 [OF u(1)])
qed

lemma range_next_3:
  assumes "0x7FF < r" and "r \<le> 0xFFFF" and "\<not> (0xD800 \<le> r \<and> r \<le> 0xDFFF)"
  shows "range_next (encode3 r @ rest) = (r, 3)"
proof -
  from assms have u: "unat r < 2 ^ 16"
    by (simp_all add: word_le_nat_alt word_less_nat_alt)
  from u have lead: "\<not> (0xE0 OR ucast (drop_bit 12 r) :: byte) < 0x80"
    "\<not> (0xE0 OR ucast (drop_bit 12 r) :: byte) < 0xE0"
    "0xE0 \<le> (0xE0 OR ucast (drop_bit 12 r) :: byte)"
    "(0xE0 OR ucast (drop_bit 12 r) :: byte) < 0xF0"
    by (simp_all add: word_le_nat_alt word_less_nat_alt unat_lead3 [OF u(1)])
  show ?thesis
    using lead assms
    by (simp add: range_next_def decoderune_def encode3_def continuation_tx value3 [OF u(1)])
qed

lemma range_next_4:
  assumes "0xFFFF < r" and "r \<le> 0x10FFFF"
  shows "range_next ([0xF0 OR ucast (drop_bit 18 r),
             0x80 OR (ucast (drop_bit 12 r) AND 0x3F),
             0x80 OR (ucast (drop_bit 6 r) AND 0x3F),
             0x80 OR (ucast r AND 0x3F)] @ rest) = (r, 4)"
proof -
  from assms have u: "unat r < 2 ^ 21" "unat r \<le> 1114111"
    by (simp_all add: word_le_nat_alt word_less_nat_alt)
  from u have lead: "\<not> (0xF0 OR ucast (drop_bit 18 r) :: byte) < 0x80"
    "\<not> (0xF0 OR ucast (drop_bit 18 r) :: byte) < 0xE0"
    "\<not> (0xF0 OR ucast (drop_bit 18 r) :: byte) < 0xF0"
    "0xF0 \<le> (0xF0 OR ucast (drop_bit 18 r) :: byte)"
    "(0xF0 OR ucast (drop_bit 18 r) :: byte) < 0xF8"
    by (simp_all add: word_le_nat_alt word_less_nat_alt unat_lead4 [OF u(1)])
  show ?thesis
    using lead assms
    by (simp add: range_next_def decoderune_def continuation_tx value4 [OF u(1)])
qed

lemma range_next_AppendRune:
  "range_next (AppendRune [] r @ rest) =
     (if valid_rune r then r else RuneError, length (AppendRune [] r))"
proof -
  consider (one) "r \<le> 0x7F" | (two) "0x7F < r" "r \<le> 0x7FF"
    | (bad) "0x7FF < r" "0x10FFFF < r \<or> (0xD800 \<le> r \<and> r \<le> 0xDFFF)"
    | (three) "0x7FF < r" "r \<le> 0xFFFF" "\<not> (0xD800 \<le> r \<and> r \<le> 0xDFFF)"
    | (four) "0xFFFF < r" "r \<le> 0x10FFFF"
    unfolding word_le_nat_alt word_less_nat_alt by simp linarith
  then show ?thesis
  proof cases
    case one
    then have "valid_rune r" by (auto simp add: valid_rune_def word_le_nat_alt)
    with one show ?thesis by (simp add: AppendRune_def range_next_1)
  next
    case two
    then have "valid_rune r" by (auto simp add: valid_rune_def word_le_nat_alt word_less_nat_alt)
    moreover from two have "\<not> r \<le> 0x7F" by (simp add: word_le_nat_alt word_less_nat_alt)
    ultimately show ?thesis using two range_next_2 [OF two, of rest] by (simp add: AppendRune_def)
  next
    case bad
    then have "\<not> valid_rune r" by (auto simp add: valid_rune_def word_le_nat_alt word_less_nat_alt)
    moreover from bad have "\<not> r \<le> 0x7F" "\<not> r \<le> 0x7FF" by (simp_all add: word_le_nat_alt word_less_nat_alt)
    ultimately show ?thesis using bad range_next_RuneError [of rest]
      by (simp add: AppendRune_def encode3_RuneError)
  next
    case three
    then have "valid_rune r" by (auto simp add: valid_rune_def word_le_nat_alt word_less_nat_alt)
    moreover from three have "\<not> r \<le> 0x7F" "\<not> r \<le> 0x7FF" "\<not> 0x10FFFF < r"
      by (simp_all add: word_le_nat_alt word_less_nat_alt)
    moreover from three(3) have "(0xD800 \<le> r \<and> r \<le> 0xDFFF) = False" by simp
    ultimately show ?thesis using three(1,2) range_next_3 [OF three, of rest]
      by (auto simp add: AppendRune_def encode3_def)
  next
    case four
    then have "valid_rune r" by (auto simp add: valid_rune_def word_le_nat_alt word_less_nat_alt)
    moreover from four have "\<not> r \<le> 0x7F" "\<not> r \<le> 0x7FF" "\<not> 0x10FFFF < r" "\<not> r \<le> 0xFFFF"
      "(0xD800 \<le> r \<and> r \<le> 0xDFFF) = False"
      by (simp_all add: word_le_nat_alt word_less_nat_alt)
    ultimately show ?thesis using four range_next_4 [OF four, of rest]
      by (auto simp add: AppendRune_def)
  qed
qed

section \<open>The map in numbers\<close>

lemma unat_byteToVariationSelector:
  "unat (byteToVariationSelector b) =
     (if unat b < 16 then 0xFE00 + unat b else 0xE0100 + (unat b - 16))"
  using unat_byte_lt [of b]
  by (simp add: byteToVariationSelector_def word_less_nat_alt unat_word_ariths
      unat_ucast_byte unat_sub word_le_nat_alt)

lemma unat_range1_byte:
  "0xFE00 \<le> unat cp \<Longrightarrow> unat cp \<le> 0xFE0F \<Longrightarrow>
   unat (ucast (cp - 0xFE00 :: rune) :: byte) = unat cp - 0xFE00"
  by (simp add: unat_ucast_rune_small unat_sub word_le_nat_alt)

lemma unat_range2_byte:
  assumes "0xE0100 \<le> unat cp" and "unat cp \<le> 0xE01EF"
  shows "unat (ucast (cp - 917744 :: rune) :: byte) = unat cp - 917744"
proof -
  from assms have "unat (cp - 917744) = unat cp - 917744"
    by (simp add: unat_sub word_le_nat_alt)
  with assms show ?thesis by (simp add: unat_ucast_rune_small)
qed

lemma variationSelectorToByte_byteToVariationSelector:
  "variationSelectorToByte (byteToVariationSelector b) = Inr b"
proof (cases "unat b < 16")
  case True
  then have u: "unat (byteToVariationSelector b) = 0xFE00 + unat b"
    by (simp add: unat_byteToVariationSelector)
  with True have "unat (ucast (byteToVariationSelector b - 0xFE00) :: byte) = unat b"
    by (simp add: unat_range1_byte)
  then have "(ucast (byteToVariationSelector b - 0xFE00) :: byte) = b"
    by (simp add: word_unat_eq_iff)
  with u True show ?thesis
    by (simp add: variationSelectorToByte_cases word_le_nat_alt)
next
  case False
  with unat_byte_lt [of b]
  have u: "unat (byteToVariationSelector b) = 0xE0100 + (unat b - 16)" "unat b < 256"
    by (simp_all add: unat_byteToVariationSelector)
  with False have "unat (ucast (byteToVariationSelector b - 917744) :: byte) = unat b"
    by (simp add: unat_range2_byte)
  then have "(ucast (byteToVariationSelector b - 917744) :: byte) = b"
    by (simp add: word_unat_eq_iff)
  with u False show ?thesis
    by (simp add: variationSelectorToByte_cases word_le_nat_alt)
qed

lemma inj_byteToVariationSelector: "inj byteToVariationSelector"
proof (rule injI)
  fix x y
  assume "byteToVariationSelector x = byteToVariationSelector y"
  then have "variationSelectorToByte (byteToVariationSelector x) =
      variationSelectorToByte (byteToVariationSelector y)"
    by simp
  then show "x = y" by (simp add: variationSelectorToByte_byteToVariationSelector)
qed

lemma byteToVariationSelector_in_ranges: "byteToVariationSelector b \<in> RangeA \<union> RangeB"
  using unat_byte_lt [of b]
  by (simp add: RangeA_def RangeB_def word_le_nat_alt unat_byteToVariationSelector)

lemma ranges_in_image:
  assumes "cp \<in> RangeA \<union> RangeB"
  shows "cp \<in> range byteToVariationSelector"
proof -
  from assms consider (A) "0xFE00 \<le> unat cp" "unat cp \<le> 0xFE0F"
    | (B) "0xE0100 \<le> unat cp" "unat cp \<le> 0xE01EF"
    by (auto simp add: RangeA_def RangeB_def word_le_nat_alt)
  then show ?thesis
  proof cases
    case A
    then have "unat (byteToVariationSelector (ucast (cp - 0xFE00))) = unat cp"
      by (simp add: unat_byteToVariationSelector unat_range1_byte)
    then have "byteToVariationSelector (ucast (cp - 0xFE00)) = cp"
      by (simp add: word_unat_eq_iff)
    then show ?thesis by (metis rangeI)
  next
    case B
    then have "unat (byteToVariationSelector (ucast (cp - 917744))) = unat cp"
      by (simp add: unat_byteToVariationSelector unat_range2_byte)
    then have "byteToVariationSelector (ucast (cp - 917744)) = cp"
      by (simp add: word_unat_eq_iff)
    then show ?thesis by (metis rangeI)
  qed
qed

lemma range_byteToVariationSelector: "range byteToVariationSelector = RangeA \<union> RangeB"
  using byteToVariationSelector_in_ranges ranges_in_image by blast

lemma not_selector_iff:
  "variationSelectorToByte cp = Inl CouldntDecode \<longleftrightarrow> cp \<notin> RangeA \<union> RangeB"
  by (simp add: variationSelectorToByte_cases RangeA_def RangeB_def)

section \<open>Claims about the byte/code point map\<close>

text \<open>
  Claim C6. \<open>ToCodepoint\<close> is a total function on bytes: for every byte \<open>b\<close>, the result
  is \<open>0xFE00 + b\<close> if \<open>b < 16\<close> and \<open>0xE0100 + (b - 16)\<close> otherwise, and it never fails.
  The equation is between numbers, so no addition or subtraction of the source wraps
  around; \<open>byteToVariationSelector\<close> has no error result, and the equation holds for every
  byte.
\<close>

theorem C6_byteToVariationSelector_value:
  "unat (byteToVariationSelector b) =
     (if unat b < 16 then 0xFE00 + unat b else 0xE0100 + (unat b - 16))"
  by (rule unat_byteToVariationSelector)

text \<open>
  Claim C7. \<open>FromCodepoint\<close> returns \<open>cp - 0xFE00\<close> for every \<open>cp\<close> in \<open>[0xFE00, 0xFE0F]\<close>,
  returns \<open>cp - 0xE0100 + 16\<close> for every \<open>cp\<close> in \<open>[0xE0100, 0xE01EF]\<close>, and fails for
  every \<open>cp\<close> outside both ranges. The code point is read as the \<open>uint32\<close> that the source
  compares, and the returned byte as a number.
\<close>

theorem C7_variationSelectorToByte_ranges:
  "(0xFE00 \<le> unat cp \<and> unat cp \<le> 0xFE0F \<longrightarrow>
      (\<exists>b. variationSelectorToByte cp = Inr b \<and> unat b = unat cp - 0xFE00)) \<and>
   (0xE0100 \<le> unat cp \<and> unat cp \<le> 0xE01EF \<longrightarrow>
      (\<exists>b. variationSelectorToByte cp = Inr b \<and> unat b = unat cp - 0xE0100 + 16)) \<and>
   (\<not> (0xFE00 \<le> unat cp \<and> unat cp \<le> 0xFE0F) \<and>
    \<not> (0xE0100 \<le> unat cp \<and> unat cp \<le> 0xE01EF) \<longrightarrow>
      variationSelectorToByte cp = Inl CouldntDecode)"
  by (auto simp add: variationSelectorToByte_cases word_le_nat_alt
      unat_range1_byte unat_range2_byte)

theorem C7_variationSelectorToByte_ranges_witness:
  "(\<exists>b. variationSelectorToByte 0xFE03 = Inr b \<and> unat b = 3) \<and>
   (\<exists>b. variationSelectorToByte 0xE0131 = Inr b \<and> unat b = 0x41) \<and>
   variationSelectorToByte 0x41 = Inl CouldntDecode"
  using C7_variationSelectorToByte_ranges [of "0xFE03"]
    C7_variationSelectorToByte_ranges [of "0xE0131"]
    C7_variationSelectorToByte_ranges [of "0x41"]
  by simp

text \<open>
  Claim C9. The per-value iteration of the source's reverse map is functionally identical
  to direct interval comparison: for every code point, the two loops of
  \<open>variationSelectorToByte\<close> and the arithmetic definition of section 4.1 return the same
  result, the same byte on success and the same failure outside both ranges.
\<close>

theorem C9_loops_refine_interval_comparison:
  "variationSelectorToByte cp = FromCodepoint_spec cp"
  by (simp add: variationSelectorToByte_cases FromCodepoint_spec_def)

text \<open>
  Claim C2. The byte/code point map is a bijection: \<open>FromCodepoint (ToCodepoint b) = b\<close>
  for every byte \<open>b\<close>, \<open>ToCodepoint\<close> is injective, its image is exactly Range A
  \<open>[0xFE00, 0xFE0F]\<close> together with Range B \<open>[0xE0100, 0xE01EF]\<close>, the two ranges are
  disjoint, and together they hold 256 code points.
\<close>

theorem C2_byte_codepoint_bijection:
  "(\<forall>b. variationSelectorToByte (byteToVariationSelector b) = Inr b) \<and>
   inj byteToVariationSelector \<and>
   range byteToVariationSelector = RangeA \<union> RangeB \<and>
   RangeA \<inter> RangeB = {} \<and>
   card (RangeA \<union> RangeB) = 256"
proof -
  have disjoint: "RangeA \<inter> RangeB = {}"
    by (auto simp add: RangeA_def RangeB_def word_le_nat_alt)
  have "card (range byteToVariationSelector) = card (UNIV :: byte set)"
    by (rule card_image [OF inj_byteToVariationSelector])
  then have "card (RangeA \<union> RangeB) = 256"
    by (simp add: range_byteToVariationSelector card_word)
  with disjoint show ?thesis
    by (simp add: variationSelectorToByte_byteToVariationSelector
        inj_byteToVariationSelector range_byteToVariationSelector)
qed

section \<open>The runes of a string and the decoding loop\<close>

lemma range_next_width: "0 < snd (range_next s)"
  by (auto simp add: range_next_def decoderune_def Let_def split: list.splits)

lemma runes_from_shift: "runes_from (p @ s) (length p + i) = runes_from s i"
proof (induction "length s - i" arbitrary: i rule: less_induct)
  case less
  show ?case
  proof (cases "i < length s")
    case True
    obtain r w where rw: "range_next (drop i s) = (r, w)" by (cases "range_next (drop i s)")
    with range_next_width [of "drop i s"] have "0 < w" by simp
    with True have "length s - (i + w) < length s - i" by simp
    then have "runes_from (p @ s) (length p + (i + w)) = runes_from s (i + w)"
      by (rule less)
    with True rw show ?thesis
      by (subst runes_from.simps, subst (2) runes_from.simps) (simp add: add.assoc)
  next
    case False
    then show ?thesis
      by (subst runes_from.simps, subst (2) runes_from.simps) simp
  qed
qed

lemma runes_Nil: "runes [] = []"
  by (simp add: runes_def runes_from.simps)

lemma runes_step:
  assumes "s \<noteq> []"
  shows "runes s = fst (range_next s) # runes (drop (snd (range_next s)) s)"
proof -
  obtain r w where rw: "range_next s = (r, w)" by (cases "range_next s")
  have "runes_from s w = runes (drop w s)"
  proof (cases "w \<le> length s")
    case True
    have "runes_from (take w s @ drop w s) (length (take w s) + 0) = runes_from (drop w s) 0"
      by (rule runes_from_shift)
    with True show ?thesis by (simp add: runes_def)
  next
    case False
    then show ?thesis by (simp add: runes_def runes_from.simps)
  qed
  with assms rw show ?thesis
    by (simp add: runes_def) (subst runes_from.simps, simp)
qed

lemma decode_loop_runes:
  "decode_loop s i m = m @ map byte_or_newline (runes_from s i)"
proof (induction s i m rule: decode_loop.induct)
  case (1 varSels i message)
  show ?case
  proof (cases "i < length varSels")
    case True
    obtain vs w where rw: "range_next (drop i varSels) = (vs, w)"
      by (cases "range_next (drop i varSels)")
    show ?thesis
    proof (cases "variationSelectorToByte vs")
      case (Inl e)
      with 1(1) [OF True refl rw [symmetric] Inl] True rw show ?thesis
        by (subst decode_loop.simps, subst runes_from.simps) (simp add: byte_or_newline_def)
    next
      case (Inr b)
      with 1(2) [OF True refl rw [symmetric] Inr] True rw show ?thesis
        by (subst decode_loop.simps, subst runes_from.simps) (simp add: byte_or_newline_def)
    qed
  next
    case False
    then show ?thesis by (subst decode_loop.simps, subst runes_from.simps) simp
  qed
qed

lemma decode_runes: "decode s = map byte_or_newline (runes s)"
  by (simp add: decode_def runes_def decode_loop_runes)

section \<open>What \<open>encode\<close> writes and what \<open>decode\<close> reads back\<close>

lemma AppendRune_not_Nil: "AppendRune [] r \<noteq> []"
  by (simp add: AppendRune_def encode3_def)

lemma runes_AppendRune:
  "runes (AppendRune [] r @ rest) = (if valid_rune r then r else RuneError) # runes rest"
  using AppendRune_not_Nil [of r]
  by (simp add: runes_step [of "AppendRune [] r @ rest"] range_next_AppendRune)

lemma encode_loop_eq:
  "encode_loop s p = s @ concat (map (\<lambda>b. AppendRune [] (byteToVariationSelector b)) p)"
proof (induction p arbitrary: s)
  case Nil
  show ?case by simp
next
  case (Cons b p)
  show ?case
    by (simp add: Cons AppendRune_append [of s])
qed

lemma encode_eq:
  "encode base p =
     AppendRune [] base @ concat (map (\<lambda>b. AppendRune [] (byteToVariationSelector b)) p)"
  by (simp add: encode_def encode_loop_eq)

lemma valid_byteToVariationSelector: "valid_rune (byteToVariationSelector b)"
  using unat_byte_lt [of b]
  by (simp add: valid_rune_def word_le_nat_alt unat_byteToVariationSelector)

lemma runes_selectors:
  "runes (concat (map (\<lambda>b. AppendRune [] (byteToVariationSelector b)) p) @ rest) =
     map byteToVariationSelector p @ runes rest"
  by (induction p) (simp_all add: runes_AppendRune valid_byteToVariationSelector)

lemma byte_or_newline_selector: "byte_or_newline (byteToVariationSelector b) = b"
  by (simp add: byte_or_newline_def variationSelectorToByte_byteToVariationSelector)

lemma byte_or_newline_other: "r \<notin> RangeA \<union> RangeB \<Longrightarrow> byte_or_newline r = 0x0A"
  using not_selector_iff [of r] by (simp add: byte_or_newline_def)

lemma RuneError_not_selector: "RuneError \<notin> RangeA \<union> RangeB"
  by (simp add: RangeA_def RangeB_def)

lemma runes_encode:
  "runes (encode base p @ rest) =
     (if valid_rune base then base else RuneError) # map byteToVariationSelector p @ runes rest"
  by (simp add: encode_eq runes_AppendRune runes_selectors)

lemma decode_encode_append:
  assumes "base \<notin> RangeA \<union> RangeB"
  shows "decode (encode base p @ rest) = 0x0A # p @ decode rest"
proof -
  have "byte_or_newline (if valid_rune base then base else RuneError) = 0x0A"
    using assms RuneError_not_selector by (simp add: byte_or_newline_other)
  moreover have "map (byte_or_newline \<circ> byteToVariationSelector) p = p"
    by (induction p) (simp_all add: byte_or_newline_selector)
  ultimately show ?thesis
    by (simp add: decode_runes runes_encode del: Un_iff)
qed

lemma runes_continuation:
  assumes "\<forall>b \<in> set t. continuation b"
  shows "runes t = replicate (length t) RuneError"
  using assms
proof (induction t)
  case Nil
  show ?case by (simp add: runes_Nil)
next
  case (Cons b t)
  then have "0x80 \<le> b" "b \<le> 0xBF" by (simp_all add: continuation_def)
  then have "range_next (b # t) = (RuneError, 1)"
    by (simp add: range_next_def decoderune_def word_le_nat_alt word_less_nat_alt)
  with Cons show ?case by (simp add: runes_step [of "b # t"])
qed

section \<open>\<open>TrimSpace\<close> on a string framed by newlines\<close>

lemma TrimSpace_start_skip:
  assumes "i \<le> m" and "m \<le> length s"
    and "\<forall>j. i \<le> j \<and> j < m \<longrightarrow> ascii_space (s ! j)"
    and "m = length s \<or> ascii_visible (s ! m)"
  shows "TrimSpace_start s i = Index m"
  using assms
proof (induction "m - i" arbitrary: i)
  case 0
  then have "i = m" by simp
  with 0 show ?case
    by (subst TrimSpace_start.simps) (auto simp add: ascii_visible_def Let_def)
next
  case (Suc k)
  then have "i < m" "ascii_space (s ! i)" by auto
  moreover from Suc have "TrimSpace_start s (i + 1) = Index m" by auto
  ultimately show ?case using Suc.prems(2)
    by (subst TrimSpace_start.simps) (auto simp add: ascii_space_def Let_def)
qed

lemma TrimSpace_stop_skip:
  assumes "start \<le> m" and "m \<le> stop" and "stop \<le> length s"
    and "\<forall>j. m \<le> j \<and> j < stop \<longrightarrow> ascii_space (s ! j)"
    and "m = start \<or> ascii_visible (s ! (m - 1))"
  shows "TrimSpace_stop s start stop = Index m"
  using assms(2-4)
proof (induction "stop - m" arbitrary: stop)
  case 0
  then have "stop = m" by simp
  with assms(1,5) show ?case
    by (subst TrimSpace_stop.simps) (auto simp add: ascii_visible_def Let_def)
next
  case (Suc k)
  then have lt: "m < stop" and sp: "ascii_space (s ! (stop - 1))" by auto
  from Suc.hyps(2) have "k = (stop - 1) - m" by simp
  moreover from lt have "m \<le> stop - 1" by simp
  moreover from Suc.prems(2) have "stop - 1 \<le> length s" by simp
  moreover from Suc.prems(3) have "\<forall>j. m \<le> j \<and> j < stop - 1 \<longrightarrow> ascii_space (s ! j)"
    by auto
  ultimately have "TrimSpace_stop s start (stop - 1) = Index m" by (rule Suc.hyps(1))
  with lt sp assms(1) show ?case
    by (subst TrimSpace_stop.simps) (auto simp add: ascii_space_def Let_def)
qed

lemma TrimSpace_between_newlines:
  assumes "p = [] \<or> (ascii_visible (hd p) \<and> ascii_visible (last p))"
  shows "TrimSpace (replicate a 0x0A @ p @ replicate k 0x0A) = p"
proof -
  let ?s = "replicate a 0x0A @ p @ replicate k 0x0A"
  have nl: "ascii_space 0x0A" by (simp add: ascii_space_def asciiSpace_def)
  show ?thesis
  proof (cases "p = []")
    case True
    have "TrimSpace_start ?s 0 = Index (length ?s)"
      by (rule TrimSpace_start_skip) (use True nl in \<open>auto simp add: nth_append\<close>)
    moreover have "TrimSpace_stop ?s (length ?s) (length ?s) = Index (length ?s)"
      by (rule TrimSpace_stop_skip) auto
    ultimately show ?thesis using True by (simp add: TrimSpace_def)
  next
    case False
    with assms have v: "ascii_visible (hd p)" "ascii_visible (last p)" by auto
    from False have hd: "?s ! a = hd p"
      by (simp add: nth_append hd_conv_nth)
    from False have "a + length p - 1 = length (replicate a (0x0A :: byte)) + (length p - 1)"
      by (cases p) simp_all
    then have "?s ! (a + length p - 1) = (p @ replicate k 0x0A) ! (length p - 1)"
      by (simp only: nth_append_length_plus)
    with False have lst: "?s ! (a + length p - 1) = last p"
      by (simp add: nth_append last_conv_nth)
    have "TrimSpace_start ?s 0 = Index a"
      by (rule TrimSpace_start_skip) (use hd v nl in \<open>auto simp add: nth_append\<close>)
    moreover have "TrimSpace_stop ?s a (length ?s) = Index (a + length p)"
      by (rule TrimSpace_stop_skip) (use lst v nl in \<open>auto simp add: nth_append\<close>)
    ultimately show ?thesis by (simp add: TrimSpace_def)
  qed
qed

lemma printable_visible: "printable b \<Longrightarrow> ascii_visible b"
  by (auto simp add: printable_def ascii_visible_def asciiSpace_def word_le_nat_alt
      word_less_nat_alt)

text \<open>
  On a string of ASCII bytes \<open>TrimSpace\<close> is what its name says: the string without its
  leading and trailing ASCII spaces.
\<close>

lemma TrimSpace_ascii:
  assumes "\<forall>b \<in> set s. b < 0x80"
  shows "TrimSpace s = rev (dropWhile ascii_space (rev (dropWhile ascii_space s)))"
proof -
  let ?a = "length (takeWhile ascii_space s)"
  let ?t = "dropWhile ascii_space s"
  let ?z = "length (takeWhile ascii_space (rev ?t))"
  have vis: "ascii_visible b" if "b \<in> set s" "\<not> ascii_space b" for b
    using that assms by (auto simp add: ascii_visible_def ascii_space_def)
  have a_le: "?a \<le> length s" by (rule length_takeWhile_le)
  have s_split: "s = takeWhile ascii_space s @ ?t" by simp
  have start: "TrimSpace_start s 0 = Index ?a"
  proof (rule TrimSpace_start_skip)
    show "\<forall>j. 0 \<le> j \<and> j < ?a \<longrightarrow> ascii_space (s ! j)"
      by (metis nth_mem set_takeWhileD takeWhile_nth)
    show "?a = length s \<or> ascii_visible (s ! ?a)"
    proof (cases "?a < length s")
      case True
      then have "\<not> ascii_space (s ! ?a)" by (rule nth_length_takeWhile)
      with True show ?thesis by (simp add: vis)
    next
      case False
      with a_le show ?thesis by simp
    qed
  qed (use a_le in simp_all)
  have z_le: "?z \<le> length ?t"
    using length_takeWhile_le [of ascii_space "rev ?t"] by simp
  have len_t: "length ?t = length s - ?a"
    by (simp add: dropWhile_eq_drop)
  let ?m = "length s - ?z"
  have t_eq: "?t = drop ?a s" by (simp add: dropWhile_eq_drop)
  have stop: "TrimSpace_stop s ?a (length s) = Index ?m"
  proof (rule TrimSpace_stop_skip)
    show "?a \<le> ?m" using z_le len_t a_le by linarith
    show "?m \<le> length s" by simp
    show "length s \<le> length s" by simp
    show "\<forall>j. ?m \<le> j \<and> j < length s \<longrightarrow> ascii_space (s ! j)"
    proof (intro allI impI)
      fix j assume j: "?m \<le> j \<and> j < length s"
      then have k: "length s - 1 - j < ?z" by linarith
      then have "ascii_space (takeWhile ascii_space (rev ?t) ! (length s - 1 - j))"
        by (metis nth_mem set_takeWhileD)
      with k have "ascii_space (rev ?t ! (length s - 1 - j))" by (simp add: takeWhile_nth)
      moreover from k z_le have "length s - 1 - j < length ?t" by simp
      ultimately have "ascii_space (?t ! (length ?t - 1 - (length s - 1 - j)))"
        by (simp add: rev_nth)
      moreover from j k z_le len_t have "?a + (length ?t - 1 - (length s - 1 - j)) = j"
        by simp
      ultimately show "ascii_space (s ! j)"
        using a_le by (simp add: t_eq)
    qed
    show "?m = ?a \<or> ascii_visible (s ! (?m - 1))"
    proof (cases "?z < length ?t")
      case True
      then have nsp: "\<not> ascii_space (rev ?t ! ?z)"
        using nth_length_takeWhile [of ascii_space "rev ?t"] by simp
      from True have "rev ?t ! ?z = ?t ! (length ?t - 1 - ?z)" by (simp add: rev_nth)
      also from True len_t a_le have "\<dots> = s ! (?m - 1)"
        by (simp add: t_eq)
      finally have "\<not> ascii_space (s ! (?m - 1))" using nsp by simp
      moreover from True len_t have "?m - 1 < length s" by simp
      ultimately show ?thesis by (simp add: vis)
    next
      case False
      with z_le len_t a_le show ?thesis by simp
    qed
  qed
  have "take (?m - ?a) (drop ?a s) = rev (dropWhile ascii_space (rev ?t))"
  proof -
    have "rev (dropWhile ascii_space (rev ?t)) = rev (drop ?z (rev ?t))"
      by (simp add: dropWhile_eq_drop)
    also have "\<dots> = take (length ?t - ?z) ?t"
      by (simp add: rev_drop)
    also from len_t have "\<dots> = take (?m - ?a) (drop ?a s)"
      by (simp add: t_eq add.commute)
    finally show ?thesis by simp
  qed
  with start stop show ?thesis by (simp add: TrimSpace_def)
qed

section \<open>\<open>EncodeText\<close> and \<open>DecodeText\<close>\<close>

lemma EncodeText_ok:
  assumes "target \<noteq> []" and "clearText s \<noteq> []"
  shows "EncodeText s target =
     Inr (encode (ucast (hd target)) (clearText s) @ drop 1 target)"
  using assms by (cases target) (simp_all add: EncodeText_def Let_def)

lemma encode_not_Nil: "encode base p \<noteq> []"
  by (simp add: encode_eq AppendRune_not_Nil)

lemma byte_rune_not_selector: "ucast (b :: byte) \<notin> RangeA \<union> RangeB"
  using unat_byte_lt [of b]
  by (simp add: RangeA_def RangeB_def word_le_nat_alt unat_ucast_byte)

lemma decode_append_others:
  assumes "\<forall>r \<in> set (runes t). r \<notin> RangeA \<union> RangeB"
  shows "decode t = replicate (length (runes t)) 0x0A"
proof -
  from assms have "map byte_or_newline (runes t) = map (\<lambda>r. 0x0A) (runes t)"
    by (intro map_cong refl) (simp add: byte_or_newline_other del: Un_iff)
  then show ?thesis by (simp add: decode_runes map_replicate_const)
qed

lemma DecodeText_EncodeText:
  assumes "target \<noteq> []" and "clearText s = p" and "p \<noteq> []"
    and "ascii_visible (hd p)" and "ascii_visible (last p)"
    and "\<forall>r \<in> set (runes (drop 1 target)). r \<notin> RangeA \<union> RangeB"
  shows "\<exists>e. EncodeText s target = Inr e \<and> DecodeText s' e = Inr p"
proof -
  let ?e = "encode (ucast (hd target)) p @ drop 1 target"
  let ?k = "length (runes (drop 1 target))"
  have "decode ?e = 0x0A # p @ decode (drop 1 target)"
    by (rule decode_encode_append [OF byte_rune_not_selector])
  with assms(6) have "decode ?e = replicate 1 0x0A @ p @ replicate ?k 0x0A"
    by (simp add: decode_append_others del: Un_iff)
  moreover from assms(4,5) have "TrimSpace (replicate 1 0x0A @ p @ replicate ?k 0x0A) = p"
    by (intro TrimSpace_between_newlines) simp
  ultimately have "TrimSpace (decode ?e) = p" by simp
  moreover have "?e \<noteq> []" by (simp add: encode_not_Nil)
  ultimately have "DecodeText s' ?e = Inr p" by (simp add: DecodeText_def)
  moreover from assms(1-3) have "EncodeText s target = Inr ?e"
    by (simp add: EncodeText_ok)
  ultimately show ?thesis by simp
qed

lemma AppendRune_tail: "\<forall>b \<in> set (drop 1 (AppendRune [] r)). continuation b"
  by (simp add: AppendRune_def encode3_def continuation_tx) (simp add: continuation_def)

lemma runes_hello: "runes [0x68, 0x69, 0x21] = [0x68, 0x69, 0x21]"
  by (simp add: runes_step range_next_def runes_Nil)

lemma EncodeText_ascii_carrier:
  assumes "target \<noteq> []" and "hd target < 0x80" and "clearText s \<noteq> []"
  shows "EncodeText s target = Inr (Embed_spec target (clearText s))"
proof -
  from assms(1) obtain c t where t: "target = c # t" by (cases target) auto
  with assms(2) have c: "c < 0x80" by simp
  then have "unat (ucast c :: rune) \<le> 127"
    by (simp add: unat_ucast_byte word_less_nat_alt)
  then have "(ucast c :: rune) \<le> 0x7F" by (simp add: word_le_nat_alt)
  moreover have "ucast (ucast c :: rune) = c"
    by (simp add: word_unat_eq_iff unat_ucast_rune_small unat_ucast_byte unat_byte_lt)
  ultimately have "AppendRune [] (ucast c) = [c]" by (simp add: AppendRune_def)
  with t c assms(3) show ?thesis
    by (simp add: EncodeText_ok Embed_spec_def range_next_def encode_eq)
qed

section \<open>Claims about the transforms\<close>

text \<open>
  Claim C10. The inner round trip, without trimming and without any restriction on the
  payload: for every byte sequence \<open>p\<close>, empty or with white space in it, and every base
  rune outside both variation-selector ranges, \<open>decode (encode base p)\<close> is the single
  newline byte \<open>0x0A\<close> followed by exactly the bytes of \<open>p\<close>; and \<open>decode\<close> writes exactly
  one byte per rune of its input, whatever the input \<open>s\<close>. The base need not even be a
  scalar value: \<open>AppendRune\<close> writes \<open>RuneError\<close> for the others, which is outside both
  ranges too.
\<close>

theorem C10_decode_encode:
  assumes "base \<notin> RangeA \<union> RangeB"
  shows "decode (encode base p) = 0x0A # p \<and> length (decode s) = length (runes s)"
  using decode_encode_append [OF assms, of p "[]"]
  by (simp add: decode_runes runes_Nil)

theorem C10_decode_encode_witness:
  "(0x1F600 :: rune) \<notin> RangeA \<union> RangeB \<and>
   decode (encode 0x1F600 [0x20, 0x0A, 0x48]) = [0x0A, 0x20, 0x0A, 0x48] \<and>
   length (decode [0xFF, 0x41]) = length (runes [0xFF, 0x41])"
  using C10_decode_encode [of "0x1F600" "[0x20, 0x0A, 0x48]" "[0xFF, 0x41]"]
  by (simp add: RangeA_def RangeB_def)



text \<open>
  Claim C8. For every non-empty string with no code point in either variation-selector
  range, \<open>Extract\<close> returns the empty string: every rune becomes a newline and the
  trimming removes them all.
\<close>

theorem C8_plain_text_decodes_to_empty:
  assumes "target \<noteq> []" and "\<forall>r \<in> set (runes target). r \<notin> RangeA \<union> RangeB"
  shows "DecodeText s target = Inr []"
proof -
  from assms(2) have "decode target = replicate (length (runes target)) 0x0A @ [] @ replicate 0 0x0A"
    by (simp add: decode_append_others del: Un_iff)
  moreover have "TrimSpace (replicate (length (runes target)) 0x0A @ [] @ replicate 0 0x0A) = []"
    by (intro TrimSpace_between_newlines) simp
  ultimately have "TrimSpace (decode target) = []" by simp
  with assms(1) show ?thesis by (simp add: DecodeText_def)
qed

theorem C8_plain_text_decodes_to_empty_witness:
  "[0x68, 0x69, 0x21] \<noteq> ([] :: byte list) \<and>
   set (runes [0x68, 0x69, 0x21]) \<inter> (RangeA \<union> RangeB) = {} \<and>
   DecodeText \<lparr>clearText = [], encode_flag = False\<rparr> [0x68, 0x69, 0x21] = Inr []"
  using C8_plain_text_decodes_to_empty [of "[0x68, 0x69, 0x21]" "\<lparr>clearText = [], encode_flag = False\<rparr>"]
  by (simp add: runes_hello RangeA_def RangeB_def)

text \<open>
  Claim C1. Round trip: for every non-empty payload \<open>p\<close> of printable bytes that are no
  white space, and every carrier that is a single character (the UTF-8 encoding of one
  scalar value \<open>r\<close>), \<open>EncodeText\<close> succeeds and \<open>DecodeText\<close> of its output returns the
  bytes of \<open>p\<close>.
\<close>

theorem C1_round_trip:
  assumes "valid_rune r" and "p \<noteq> []" and "\<forall>b \<in> set p. printable b" and "clearText s = p"
  shows "\<exists>e. EncodeText s (AppendRune [] r) = Inr e \<and> DecodeText s' e = Inr p"
proof (rule DecodeText_EncodeText)
  show "AppendRune [] r \<noteq> []" by (rule AppendRune_not_Nil)
  show "clearText s = p" by (rule assms(4))
  show "p \<noteq> []" by (rule assms(2))
  from assms(2,3) show "ascii_visible (hd p)" by (simp add: printable_visible)
  from assms(2,3) show "ascii_visible (last p)" by (simp add: printable_visible)
  have "runes (drop 1 (AppendRune [] r)) =
      replicate (length (drop 1 (AppendRune [] r))) RuneError"
    by (rule runes_continuation [OF AppendRune_tail])
  then show "\<forall>x \<in> set (runes (drop 1 (AppendRune [] r))). x \<notin> RangeA \<union> RangeB"
    using RuneError_not_selector by (simp del: Un_iff)
qed

theorem C1_round_trip_witness:
  "valid_rune 0x1F600 \<and> [0x48, 0x69] \<noteq> ([] :: byte list) \<and> printable 0x48 \<and> printable 0x69 \<and>
   (\<exists>e. EncodeText \<lparr>clearText = [0x48, 0x69], encode_flag = True\<rparr> (AppendRune [] 0x1F600) = Inr e \<and>
        DecodeText \<lparr>clearText = [], encode_flag = False\<rparr> e = Inr [0x48, 0x69])"
  using C1_round_trip [of "0x1F600" "[0x48, 0x69]" "\<lparr>clearText = [0x48, 0x69], encode_flag = True\<rparr>"
      "\<lparr>clearText = [], encode_flag = False\<rparr>"]
  by (simp add: valid_rune_def printable_def)

text \<open>
  Claim C5. Empty-input rejection: \<open>Embed\<close> fails with \<open>EmptyInputError\<close> if and only if
  the carrier is empty or the payload is empty, and \<open>Extract\<close> fails with
  \<open>EmptyInputError\<close> if and only if its input string is empty.
\<close>

theorem C5_empty_input_rejection:
  "((\<exists>e. EncodeText s target = Inl e \<and> EmptyInputError e) \<longleftrightarrow>
      target = [] \<or> clearText s = []) \<and>
   ((\<exists>e. DecodeText s target = Inl e \<and> EmptyInputError e) \<longleftrightarrow> target = [])"
  by (auto simp add: EncodeText_def DecodeText_def EmptyInputError_def Let_def)

text \<open>
  Claim C3 says that \<open>Embed\<close> returns the first scalar character of the carrier, then one
  variation selector per payload byte, then the rest of the carrier, also for a carrier
  whose first character takes several bytes. \<open>EncodeText\<close> takes the first byte of the
  carrier, not its first character. On the carrier U+00E9 (the bytes \<open>C3 A9\<close>) with the
  payload \<open>A\<close> it writes U+00C3 (the bytes \<open>C3 83\<close>), the selector U+E0131 and then the
  stray byte \<open>A9\<close>, where the claim has \<open>C3 A9\<close> followed by the selector.
\<close>

theorem C3_EncodeText_takes_first_byte:
  "EncodeText \<lparr>clearText = [0x41], encode_flag = True\<rparr> [0xC3, 0xA9] =
     Inr [0xC3, 0x83, 0xF3, 0xA0, 0x84, 0xB1, 0xA9] \<and>
   Embed_spec [0xC3, 0xA9] [0x41] = [0xC3, 0xA9, 0xF3, 0xA0, 0x84, 0xB1] \<and>
   runes [0xC3, 0xA9] = [0xE9] \<and>
   EncodeText \<lparr>clearText = [0x41], encode_flag = True\<rparr> [0xC3, 0xA9] \<noteq>
     Inr (Embed_spec [0xC3, 0xA9] [0x41])"
  by (simp add: EncodeText_def encode_def AppendRune_def byteToVariationSelector_def
      Embed_spec_def range_next_def decoderune_def continuation_def runes_step runes_Nil)

end
